theory Spec2Isabelle
  imports Main "HOL-Library.Word"
begin

unbundle bit_operations_syntax

section \<open>Machine types\<close>

text \<open>
  The sources are C++ for an LP64 target: \<open>uint8_t\<close> is an 8-bit word, \<open>uint32_t\<close>
  and \<open>UInt32\<close> are 32-bit words, \<open>size_t\<close> and \<open>uint64_t\<close> are 64-bit words and
  \<open>int64_t\<close> is a 64-bit word read in two's complement (\<open>sint\<close>). Arithmetic on words
  wraps around as the unsigned C++ arithmetic does. A pointer is the address it holds, a
  natural number with \<open>0\<close> for \<open>nullptr\<close>; the memory behind a pointer is a function from
  addresses to bytes.
\<close>

type_synonym byte = "8 word"
type_synonym memory = "nat \<Rightarrow> byte"

section \<open>SFB::ByteStream (SFBByteStream.hpp)\<close>

record ByteStream =
  mBuffer :: nat
  mBufferLength :: "32 word"
  mReadPosition :: "32 word"

datatype error = invalid_argument

text \<open>\<open>ByteStream()\<close>: the empty stream.\<close>

definition ByteStream_empty :: ByteStream where
  "ByteStream_empty = \<lparr>mBuffer = 0, mBufferLength = 0, mReadPosition = 0\<rparr>"

text \<open>\<open>ByteStream(const void *buf, uint32_t len)\<close>: throws when \<open>buf\<close> is null and \<open>len > 0\<close>.\<close>

definition ByteStream_init :: "nat \<Rightarrow> 32 word \<Rightarrow> error + ByteStream" where
  "ByteStream_init buf len =
     (if buf = 0 \<and> len > 0 then Inl invalid_argument
      else Inr \<lparr>mBuffer = buf, mBufferLength = len, mReadPosition = 0\<rparr>)"

text \<open>Copy constructor, and copy assignment (the same fields are taken from \<open>rhs\<close>).\<close>

definition ByteStream_copy :: "ByteStream \<Rightarrow> ByteStream" where
  "ByteStream_copy rhs =
     \<lparr>mBuffer = mBuffer rhs, mBufferLength = mBufferLength rhs, mReadPosition = mReadPosition rhs\<rparr>"

text \<open>
  Move constructor, and move assignment from another object: the result is the new
  object paired with what is left in \<open>rhs\<close>.
\<close>

definition ByteStream_move :: "ByteStream \<Rightarrow> ByteStream \<times> ByteStream" where
  "ByteStream_move rhs =
     (\<lparr>mBuffer = mBuffer rhs, mBufferLength = mBufferLength rhs, mReadPosition = mReadPosition rhs\<rparr>,
      \<lparr>mBuffer = 0, mBufferLength = 0, mReadPosition = 0\<rparr>)"

definition ByteStream_eq :: "ByteStream \<Rightarrow> ByteStream \<Rightarrow> bool" where
  "ByteStream_eq s rhs \<longleftrightarrow>
     mBuffer s = mBuffer rhs \<and> mBufferLength s = mBufferLength rhs \<and> mReadPosition s = mReadPosition rhs"

definition ByteStream_neq :: "ByteStream \<Rightarrow> ByteStream \<Rightarrow> bool" where
  "ByteStream_neq s rhs \<longleftrightarrow>
     mBuffer s \<noteq> mBuffer rhs \<or> mBufferLength s \<noteq> mBufferLength rhs \<or> mReadPosition s \<noteq> mReadPosition rhs"

definition Length :: "ByteStream \<Rightarrow> 32 word" where
  "Length s = mBufferLength s"

definition Remaining :: "ByteStream \<Rightarrow> 32 word" where
  "Remaining s = mBufferLength s - mReadPosition s"

definition Position :: "ByteStream \<Rightarrow> 32 word" where
  "Position s = mReadPosition s"

text \<open>
  \<open>memcpy(buf, mBuffer + mReadPosition, n)\<close> reads the \<open>n\<close> bytes of memory that start
  at the read position.
\<close>

definition bytes_at :: "memory \<Rightarrow> nat \<Rightarrow> nat \<Rightarrow> byte list" where
  "bytes_at mem addr n = map (\<lambda>i. mem (addr + i)) [0..<n]"

text \<open>
  \<open>uint32_t Read(void *buf, uint32_t count)\<close>. The destination is given by whether
  \<open>buf\<close> is non-null; the result is the stream afterwards, the bytes copied to \<open>buf\<close>
  (\<open>None\<close> when \<open>buf\<close> is null and the bytes are discarded) and the returned count.
\<close>

definition Read :: "memory \<Rightarrow> ByteStream \<Rightarrow> bool \<Rightarrow> 32 word \<Rightarrow> ByteStream \<times> byte list option \<times> 32 word" where
  "Read mem s buf count =
     (let bytesToCopy = min count (mBufferLength s - mReadPosition s);
          copied = (if buf then Some (bytes_at mem (mBuffer s + unat (mReadPosition s)) (unat bytesToCopy))
                    else None)
      in (s\<lparr>mReadPosition := mReadPosition s + bytesToCopy\<rparr>, copied, bytesToCopy))"

text \<open>
  \<open>template <typename T> bool Read(T& value)\<close> for an integral \<open>T\<close> of \<open>valueSize\<close>
  bytes (a \<open>size_t\<close>): the stream afterwards, the bytes stored in \<open>value\<close> and the result.
\<close>

definition Read_value :: "memory \<Rightarrow> ByteStream \<Rightarrow> 64 word \<Rightarrow> ByteStream \<times> byte list option \<times> bool" where
  "Read_value mem s valueSize =
     (if valueSize > ucast (Remaining s) then (s, None, False)
      else (case Read mem s True (ucast valueSize) of
              (s', value, bytesRead) \<Rightarrow> (s', value, ucast bytesRead = valueSize)))"

text \<open>
  \<open>ReadSwapped\<close> reads the same way and then reverses the byte order of a value of
  2, 4 or 8 bytes; \<open>ReadLE\<close> and \<open>ReadBE\<close> do so when the host's byte order differs.
\<close>

definition swap_bytes :: "64 word \<Rightarrow> byte list \<Rightarrow> byte list" where
  "swap_bytes valueSize v = (if valueSize = 2 \<or> valueSize = 4 \<or> valueSize = 8 then rev v else v)"

definition Read_converted ::
  "(byte list \<Rightarrow> byte list) \<Rightarrow> memory \<Rightarrow> ByteStream \<Rightarrow> 64 word \<Rightarrow> ByteStream \<times> byte list option \<times> bool" where
  "Read_converted conv mem s valueSize =
     (if valueSize > ucast (Remaining s) then (s, None, False)
      else (case Read mem s True (ucast valueSize) of
              (s', value, bytesRead) \<Rightarrow>
                if valueSize \<noteq> ucast bytesRead then (s', value, False)
                else (s', map_option conv value, True)))"

definition ReadSwapped :: "memory \<Rightarrow> ByteStream \<Rightarrow> 64 word \<Rightarrow> ByteStream \<times> byte list option \<times> bool" where
  "ReadSwapped mem s valueSize = Read_converted (swap_bytes valueSize) mem s valueSize"

definition ReadLE :: "bool \<Rightarrow> memory \<Rightarrow> ByteStream \<Rightarrow> 64 word \<Rightarrow> ByteStream \<times> byte list option \<times> bool" where
  "ReadLE host_little_endian mem s valueSize =
     Read_converted (if host_little_endian then (\<lambda>v. v) else swap_bytes valueSize) mem s valueSize"

definition ReadBE :: "bool \<Rightarrow> memory \<Rightarrow> ByteStream \<Rightarrow> 64 word \<Rightarrow> ByteStream \<times> byte list option \<times> bool" where
  "ReadBE host_little_endian mem s valueSize =
     Read_converted (if host_little_endian then swap_bytes valueSize else (\<lambda>v. v)) mem s valueSize"

text \<open>\<open>uint32_t Skip(uint32_t count)\<close>: returns the new read position, as the source does.\<close>

definition Skip :: "ByteStream \<Rightarrow> 32 word \<Rightarrow> ByteStream \<times> 32 word" where
  "Skip s count =
     (let s' = s\<lparr>mReadPosition := mReadPosition s + min count (mBufferLength s - mReadPosition s)\<rparr>
      in (s', mReadPosition s'))"

definition Rewind :: "ByteStream \<Rightarrow> 32 word \<Rightarrow> ByteStream \<times> 32 word" where
  "Rewind s count =
     (let bytesToSkip = min count (mReadPosition s)
      in (s\<lparr>mReadPosition := mReadPosition s - bytesToSkip\<rparr>, bytesToSkip))"

definition SetPosition :: "ByteStream \<Rightarrow> 32 word \<Rightarrow> ByteStream \<times> 32 word" where
  "SetPosition s pos =
     (let s' = s\<lparr>mReadPosition := min pos (mBufferLength s)\<rparr>
      in (s', mReadPosition s'))"

text \<open>The position invariant of a stream: the read position is within the buffer.\<close>

definition position_ok :: "ByteStream \<Rightarrow> bool" where
  "position_ok s \<longleftrightarrow> mReadPosition s \<le> mBufferLength s"


section \<open>SFBAudioStreamBasicDescription (SFBAudioStreamBasicDescription.hpp)\<close>

text \<open>
  The class adds member functions to Core Audio's \<open>AudioStreamBasicDescription\<close>, whose
  declaration belongs to the platform SDK; the record holds the integer fields the
  sources read. \<open>kAudioFormatFlagIsNonInterleaved\<close> is the SDK's flag bit \<open>1 << 5\<close>.
\<close>

record AudioStreamBasicDescription =
  mFormatID :: "32 word"
  mFormatFlags :: "32 word"
  mBytesPerFrame :: "32 word"
  mChannelsPerFrame :: "32 word"

definition kAudioFormatFlagIsNonInterleaved :: "32 word" where
  "kAudioFormatFlagIsNonInterleaved = push_bit 5 1"

definition IsInterleaved :: "AudioStreamBasicDescription \<Rightarrow> bool" where
  "IsInterleaved format \<longleftrightarrow> (mFormatFlags format AND kAudioFormatFlagIsNonInterleaved) = 0"

definition InterleavedChannelCount :: "AudioStreamBasicDescription \<Rightarrow> 32 word" where
  "InterleavedChannelCount format = (if IsInterleaved format then mChannelsPerFrame format else 1)"

definition ChannelStreamCount :: "AudioStreamBasicDescription \<Rightarrow> 32 word" where
  "ChannelStreamCount format = (if IsInterleaved format then 1 else mChannelsPerFrame format)"

definition ChannelCount :: "AudioStreamBasicDescription \<Rightarrow> 32 word" where
  "ChannelCount format = mChannelsPerFrame format"

section \<open>SFBAllocateAudioBufferList (SFBAudioBufferList.cpp)\<close>

text \<open>
  Core Audio's \<open>AudioBuffer\<close> is \<open>{UInt32 mNumberChannels; UInt32 mDataByteSize; void *mData}\<close>
  and \<open>AudioBufferList\<close> is \<open>{UInt32 mNumberBuffers; AudioBuffer mBuffers[]}\<close>; on LP64
  \<open>sizeof(AudioBuffer)\<close> is 16 and \<open>offsetof(AudioBufferList, mBuffers)\<close> is 8.
\<close>

record AudioBuffer =
  mNumberChannels :: "32 word"
  mDataByteSize :: "32 word"
  mData :: nat

record AudioBufferList =
  mNumberBuffers :: "32 word"
  mBuffers :: "AudioBuffer list"

definition sizeof_AudioBuffer :: "64 word" where
  "sizeof_AudioBuffer = 16"

definition offsetof_mBuffers :: "64 word" where
  "offsetof_mBuffers = 8"

text \<open>
  What \<open>SFBAllocateAudioBufferList\<close> returns when it does not return \<open>nullptr\<close>: the
  address \<open>abl\<close> of the block that \<open>calloc\<close> returned, the size of that block, the size of
  the \<open>AudioBufferList\<close> header at its start, and the header's contents. \<open>calloc\<close> zeroes
  the block; nothing outside the block belongs to the allocation.
\<close>

record AudioBufferList_block =
  abl :: nat
  allocationSize :: "64 word"
  bufferListSize :: "64 word"
  bufferList :: AudioBufferList

text \<open>
  The loop \<open>for(auto i = 0; i < bufferCount; ++i)\<close>. The counter is a C \<open>int\<close> that the
  comparison and the product \<open>bufferDataSize * i\<close> convert to \<open>UInt32\<close>; it is modelled by
  that unsigned value. Both products are products of two \<open>UInt32\<close>, so they wrap at 32 bits.
\<close>

function init_buffers ::
  "AudioStreamBasicDescription \<Rightarrow> nat \<Rightarrow> 64 word \<Rightarrow> 32 word \<Rightarrow> 32 word \<Rightarrow> 32 word \<Rightarrow> AudioBuffer list \<Rightarrow> AudioBuffer list" where
  "init_buffers format p listSize bufferDataSize bufferCount i bufs =
     (if i < bufferCount then
        init_buffers format p listSize bufferDataSize bufferCount (i + 1)
          (bufs[unat i := \<lparr>mNumberChannels = InterleavedChannelCount format,
                            mDataByteSize = bufferDataSize,
                            mData = p + unat listSize + unat (bufferDataSize * i)\<rparr>])
      else bufs)"
  by pat_completeness auto
termination
proof (relation "measure (\<lambda>(format, p, listSize, bufferDataSize, bufferCount, i, bufs). unat bufferCount - unat i)")
  show "wf (measure (\<lambda>(format, p, listSize, bufferDataSize, bufferCount, i, bufs). unat bufferCount - unat i))"
    by simp
next
  fix format :: AudioStreamBasicDescription and p :: nat and listSize :: "64 word"
    and bufferDataSize bufferCount i :: "32 word" and bufs :: "AudioBuffer list"
  assume lt: "i < bufferCount"
  then have less: "unat i < unat bufferCount"
    by (simp add: word_less_nat_alt)
  have "unat bufferCount < 2 ^ LENGTH(32)"
    by (rule unsigned_less)
  with less have "unat i + unat (1 :: 32 word) < 2 ^ LENGTH(32)"
    by simp
  then have "unat (i + 1) = unat i + unat (1 :: 32 word)"
    by (rule unat_add_lem [THEN iffD1])
  then have "unat (i + 1) = unat i + 1"
    by simp
  with less show "((format, p, listSize, bufferDataSize, bufferCount, i + 1,
                     bufs[unat i := \<lparr>mNumberChannels = InterleavedChannelCount format,
                                       mDataByteSize = bufferDataSize,
                                       mData = p + unat listSize + unat (bufferDataSize * i)\<rparr>]),
                    (format, p, listSize, bufferDataSize, bufferCount, i, bufs))
                   \<in> measure (\<lambda>(format, p, listSize, bufferDataSize, bufferCount, i, bufs). unat bufferCount - unat i)"
    by simp
qed

text \<open>
  \<open>SFBAllocateAudioBufferList(format, frameCapacity)\<close>. \<open>calloc\<close> is the allocator: for a
  size in bytes it answers the address of a zeroed block of that size, or \<open>0\<close>.
\<close>

definition SFBAllocateAudioBufferList ::
  "(64 word \<Rightarrow> nat) \<Rightarrow> AudioStreamBasicDescription \<Rightarrow> 32 word \<Rightarrow> AudioBufferList_block option" where
  "SFBAllocateAudioBufferList calloc format frameCapacity =
     (let bufferDataSize = frameCapacity * mBytesPerFrame format;
          bufferCount = ChannelStreamCount format;
          listSize = offsetof_mBuffers + sizeof_AudioBuffer * ucast bufferCount;
          allocSize = listSize + ucast (bufferDataSize * bufferCount);
          p = calloc allocSize
      in if p = 0 then None
         else Some \<lparr>abl = p, allocationSize = allocSize, bufferListSize = listSize,
                    bufferList =
                      \<lparr>mNumberBuffers = bufferCount,
                       mBuffers = init_buffers format p listSize bufferDataSize bufferCount 0
                                    (replicate (unat bufferCount)
                                       \<lparr>mNumberChannels = 0, mDataByteSize = 0, mData = 0\<rparr>)\<rparr>\<rparr>)"

text \<open>
  Byte \<open>j\<close> of the data of buffer \<open>i\<close> of a returned list: a byte of the zeroed block
  when its address lies in the block (the header is the only part of the block that is
  written, and the data pointers start past it), and no byte of the allocation at all
  otherwise.
\<close>

definition data_byte :: "AudioBufferList_block \<Rightarrow> nat \<Rightarrow> nat \<Rightarrow> byte option" where
  "data_byte blk i j =
     (let a = mData (mBuffers (bufferList blk) ! i) + j
      in if abl blk + unat (bufferListSize blk) \<le> a \<and> a < abl blk + unat (allocationSize blk)
         then Some 0 else None)"

declare init_buffers.simps [simp del]

section \<open>SFBCARingBuffer (SFBCARingBuffer.hpp)\<close>

record TimeBounds =
  mStartTime :: "64 word"
  mEndTime :: "64 word"
  mUpdateCounter :: "64 word"

text \<open>
  The object's fields. \<open>mBuffers\<close> (here \<open>mBuffers_rb\<close>, the name being taken by the
  field of \<open>AudioBufferList\<close>) is the pointer to the channel storage, \<open>0\<close> while the
  buffer is unallocated. \<open>mTimeBoundsQueue\<close> is the array of \<open>sTimeBoundsQueueSize\<close>
  structs.
\<close>

record SFBCARingBuffer =
  mFormat :: AudioStreamBasicDescription
  mBuffers_rb :: nat
  mCapacityFrames :: "64 word"
  mCapacityFramesMask :: "64 word"
  mTimeBoundsQueue :: "TimeBounds list"
  mTimeBoundsQueueCounter :: "64 word"

definition sTimeBoundsQueueSize :: "64 word" where
  "sTimeBoundsQueueSize = 32"

definition sTimeBoundsQueueMask :: "64 word" where
  "sTimeBoundsQueueMask = sTimeBoundsQueueSize - 1"

definition CapacityFrames :: "SFBCARingBuffer \<Rightarrow> 64 word" where
  "CapacityFrames rb = mCapacityFrames rb"

text \<open>
  \<open>size_t FrameByteOffset(int64_t frameNumber)\<close>: the operands of \<open>&\<close> and \<open>*\<close> are
  converted to \<open>size_t\<close>, so the frame number enters with its two's complement bits and
  the product wraps at 64 bits.
\<close>

definition FrameByteOffset :: "SFBCARingBuffer \<Rightarrow> 64 word \<Rightarrow> 64 word" where
  "FrameByteOffset rb frameNumber =
     (frameNumber AND mCapacityFramesMask rb) * ucast (mBytesPerFrame (mFormat rb))"

definition StartTime :: "SFBCARingBuffer \<Rightarrow> 64 word" where
  "StartTime rb =
     mStartTime (mTimeBoundsQueue rb ! unat (mTimeBoundsQueueCounter rb AND sTimeBoundsQueueMask))"

definition EndTime :: "SFBCARingBuffer \<Rightarrow> 64 word" where
  "EndTime rb =
     mEndTime (mTimeBoundsQueue rb ! unat (mTimeBoundsQueueCounter rb AND sTimeBoundsQueueMask))"

subsection \<open>The time bounds queue, from the specification\<close>

text \<open>
  Modelled from the spec: the part of \<open>Allocate\<close> that concerns the time bounds queue
  (\<open>Allocate\<close> is declared in SFBCARingBuffer.hpp; its body is not among the
  repository's files). The spec: "On success, zeroes the TimeBounds queue and sets
  StartTime = EndTime = 0, counter = 0."
\<close>

definition Allocate_time_bounds :: "SFBCARingBuffer \<Rightarrow> SFBCARingBuffer" where
  "Allocate_time_bounds rb =
     rb\<lparr>mTimeBoundsQueue :=
          replicate (unat sTimeBoundsQueueSize) \<lparr>mStartTime = 0, mEndTime = 0, mUpdateCounter = 0\<rparr>,
        mTimeBoundsQueueCounter := 0\<rparr>"

text \<open>
  Modelled from the spec: \<open>SetTimeBounds\<close> (declared in SFBCARingBuffer.hpp; its body
  is not among the repository's files). The spec: "increments timeBoundsCounter, writes
  the new entry into slot counter & sTimeBoundsQueueMask with sequence = counter", the
  times being stored first and the stamp last.
\<close>

definition SetTimeBounds :: "SFBCARingBuffer \<Rightarrow> 64 word \<Rightarrow> 64 word \<Rightarrow> SFBCARingBuffer" where
  "SetTimeBounds rb startTime endTime =
     (let counter = mTimeBoundsQueueCounter rb + 1;
          slot = unat (counter AND sTimeBoundsQueueMask)
      in rb\<lparr>mTimeBoundsQueue :=
               (mTimeBoundsQueue rb)[slot := \<lparr>mStartTime = startTime, mEndTime = endTime,
                                               mUpdateCounter = counter\<rparr>],
             mTimeBoundsQueueCounter := counter\<rparr>)"

text \<open>
  Modelled from the spec: the states of the queue that writes can leave behind (\<open>Write\<close>
  is declared in SFBCARingBuffer.hpp; its body is not among the repository's files).
  The spec: \<open>Write\<close> either changes nothing or "publishes the new
  [newStartTime, newEndTime) via SetTimeBounds". The list holds the bounds published
  since the allocation, oldest first.
\<close>

definition after_writes :: "SFBCARingBuffer \<Rightarrow> (64 word \<times> 64 word) list \<Rightarrow> SFBCARingBuffer" where
  "after_writes rb published =
     foldl (\<lambda>r (startTime, endTime). SetTimeBounds r startTime endTime) (Allocate_time_bounds rb) published"

text \<open>
  Modelled from the spec: \<open>GetTimeBounds\<close> (declared in SFBCARingBuffer.hpp; its body
  is not among the repository's files). The spec: "loads timeBoundsCounter's current
  value c, reads slot c & mask, and verifies the slot's stored sequence equals c; if a
  concurrent write advanced the counter during the read (detected by the sequence
  mismatch ...), the read retries up to a small bounded number of attempts before
  failing. Returns false only if allocation has not occurred or retries are exhausted".

  The writer may run between the two loads of an attempt, so an attempt sees the
  buffer twice: in the state \<open>at_load\<close> it loads the counter \<open>c\<close> from, and in the state
  \<open>at_read\<close> it then reads slot \<open>c & mask\<close> from. \<open>slot_read\<close> is the entry it reads and
  \<open>stamp_matches\<close> is its check.
\<close>

definition slot_read :: "SFBCARingBuffer \<Rightarrow> SFBCARingBuffer \<Rightarrow> TimeBounds" where
  "slot_read at_load at_read =
     mTimeBoundsQueue at_read ! unat (mTimeBoundsQueueCounter at_load AND sTimeBoundsQueueMask)"

definition stamp_matches :: "SFBCARingBuffer \<Rightarrow> SFBCARingBuffer \<Rightarrow> bool" where
  "stamp_matches at_load at_read \<longleftrightarrow>
     mUpdateCounter (slot_read at_load at_read) = mTimeBoundsQueueCounter at_load"

text \<open>
  The attempts of one call, in order, each given by the two states it sees; the spec
  gives no number of attempts, which is the length of the list. \<open>None\<close> is the result
  \<open>false\<close>.
\<close>

fun GetTimeBounds_attempts ::
  "(SFBCARingBuffer \<times> SFBCARingBuffer) list \<Rightarrow> (64 word \<times> 64 word) option" where
  "GetTimeBounds_attempts [] = None"
| "GetTimeBounds_attempts ((at_load, at_read) # later) =
     (let c = mTimeBoundsQueueCounter at_load;
          bounds = mTimeBoundsQueue at_read ! unat (c AND sTimeBoundsQueueMask)
      in if mUpdateCounter bounds = c then Some (mStartTime bounds, mEndTime bounds)
         else GetTimeBounds_attempts later)"

text \<open>\<open>GetTimeBounds\<close> called on \<open>rb\<close>, its attempts seeing the states \<open>views\<close>.\<close>

definition GetTimeBounds ::
  "SFBCARingBuffer \<Rightarrow> (SFBCARingBuffer \<times> SFBCARingBuffer) list \<Rightarrow> (64 word \<times> 64 word) option" where
  "GetTimeBounds rb views =
     (if mBuffers_rb rb = 0 then None else GetTimeBounds_attempts views)"

text \<open>
  The entry that the \<open>i\<close>-th publication since the allocation stores in its slot;
  \<open>i = 0\<close> is the zeroed entry that the allocation leaves in every slot.
\<close>

definition published_entry :: "(64 word \<times> 64 word) list \<Rightarrow> nat \<Rightarrow> TimeBounds" where
  "published_entry published i =
     (if i = 0 then \<lparr>mStartTime = 0, mEndTime = 0, mUpdateCounter = 0\<rparr>
      else \<lparr>mStartTime = fst (published ! (i - 1)), mEndTime = snd (published ! (i - 1)),
             mUpdateCounter = word_of_nat i\<rparr>)"


section \<open>Proofs: ByteStream\<close>

lemma advance_within:
  fixes pos len m :: "32 word"
  assumes "pos \<le> len" and "m \<le> len - pos"
  shows "unat (pos + m) = unat pos + unat m" and "pos + m \<le> len"
proof -
  have d: "unat (len - pos) = unat len - unat pos"
    using assms(1) by (simp add: unat_sub)
  have "unat m \<le> unat len - unat pos"
    using assms(2) d by (simp add: word_le_nat_alt)
  moreover have "unat pos \<le> unat len"
    using assms(1) by (simp add: word_le_nat_alt)
  ultimately have s: "unat pos + unat m \<le> unat len"
    by arith
  have "unat len < 2 ^ LENGTH(32)"
    by (rule unsigned_less)
  with s have "unat pos + unat m < 2 ^ LENGTH(32)"
    by arith
  then show u: "unat (pos + m) = unat pos + unat m"
    by (rule unat_add_lem [THEN iffD1])
  show "pos + m \<le> len"
    using s u by (simp add: word_le_nat_alt)
qed

lemma rewind_within:
  fixes pos len c :: "32 word"
  assumes "pos \<le> len"
  shows "pos - min c pos \<le> len"
proof -
  have "min c pos \<le> pos" by simp
  then have "pos - min c pos \<le> pos"
    by (simp add: word_sub_le)
  with assms show ?thesis by simp
qed

lemma remaining_exact:
  fixes pos len :: "32 word"
  assumes "pos \<le> len"
  shows "int (unat (len - pos)) = int (unat len) - int (unat pos)"
proof -
  have "unat pos \<le> unat len"
    using assms by (simp add: word_le_nat_alt)
  then show ?thesis
    using assms by (simp add: unat_sub)
qed

lemma position_ok_empty: "position_ok ByteStream_empty"
  by (simp add: position_ok_def ByteStream_empty_def)

lemma position_ok_init:
  "case ByteStream_init buf len of Inl e \<Rightarrow> buf = 0 \<and> 0 < len | Inr s \<Rightarrow> position_ok s"
  by (simp add: ByteStream_init_def position_ok_def)

lemma position_ok_copy: "position_ok s \<Longrightarrow> position_ok (ByteStream_copy s)"
  by (simp add: position_ok_def ByteStream_copy_def)

lemma position_ok_move:
  "position_ok s \<Longrightarrow> position_ok (fst (ByteStream_move s)) \<and> position_ok (snd (ByteStream_move s))"
  by (simp add: position_ok_def ByteStream_move_def)

lemma Read_result:
  assumes "position_ok s"
  shows "Read mem s buf count =
           (s\<lparr>mReadPosition := mReadPosition s + min count (Remaining s)\<rparr>,
            (if buf then Some (bytes_at mem (mBuffer s + unat (Position s)) (unat (min count (Remaining s))))
             else None),
            min count (Remaining s))"
  by (simp add: Read_def Remaining_def Position_def Let_def)

lemma position_ok_Read:
  assumes "position_ok s"
  shows "position_ok (fst (Read mem s buf count))"
    and "unat (Position (fst (Read mem s buf count))) = unat (Position s) + unat (min count (Remaining s))"
proof -
  have le: "mReadPosition s \<le> mBufferLength s"
    using assms by (simp add: position_ok_def)
  have m: "min count (mBufferLength s - mReadPosition s) \<le> mBufferLength s - mReadPosition s"
    by simp
  show "position_ok (fst (Read mem s buf count))"
    using advance_within(2) [OF le m] by (simp add: Read_def Let_def position_ok_def)
  show "unat (Position (fst (Read mem s buf count))) = unat (Position s) + unat (min count (Remaining s))"
    using advance_within(1) [OF le m] by (simp add: Read_def Let_def Position_def Remaining_def)
qed

lemma length_bytes_at: "length (bytes_at mem a n) = n"
  by (simp add: bytes_at_def)

lemma position_ok_Skip:
  assumes "position_ok s"
  shows "position_ok (fst (Skip s count))"
proof -
  have le: "mReadPosition s \<le> mBufferLength s"
    using assms by (simp add: position_ok_def)
  have m: "min count (mBufferLength s - mReadPosition s) \<le> mBufferLength s - mReadPosition s"
    by simp
  show ?thesis
    using advance_within(2) [OF le m] by (simp add: Skip_def Let_def position_ok_def)
qed

lemma position_ok_Rewind:
  assumes "position_ok s"
  shows "position_ok (fst (Rewind s count))"
  using assms rewind_within [of "mReadPosition s" "mBufferLength s" count]
  by (simp add: Rewind_def Let_def position_ok_def)

lemma position_ok_SetPosition: "position_ok (fst (SetPosition s pos))"
  by (simp add: SetPosition_def Let_def position_ok_def)

lemma position_ok_Read_value:
  assumes "position_ok s"
  shows "position_ok (fst (Read_value mem s valueSize))"
proof (cases "Read mem s True (ucast valueSize)")
  case (fields s' v n)
  with position_ok_Read(1) [OF assms, of mem True "ucast valueSize"] have "position_ok s'"
    by simp
  with assms fields show ?thesis
    by (simp add: Read_value_def)
qed

lemma position_ok_Read_converted:
  assumes "position_ok s"
  shows "position_ok (fst (Read_converted conv mem s valueSize))"
proof (cases "Read mem s True (ucast valueSize)")
  case (fields s' v n)
  with position_ok_Read(1) [OF assms, of mem True "ucast valueSize"] have "position_ok s'"
    by simp
  with assms fields show ?thesis
    by (simp add: Read_converted_def)
qed


text \<open>
  C10. Every operation of a ByteStream keeps the read position within the buffer:
  the constructors establish \<open>mReadPosition \<le> mBufferLength\<close>, and copying, moving,
  \<open>Read\<close> (with its typed variants), \<open>Skip\<close>, \<open>Rewind\<close> and \<open>SetPosition\<close>
  preserve it. \<open>Read(buf, count)\<close> returns \<open>min(count, Remaining())\<close>, hands exactly
  that many bytes, taken from the read position, to a non-null \<open>buf\<close> (a null \<open>buf\<close>
  discards them), and advances the position by exactly that amount without wrapping.
  Hence \<open>Remaining()\<close> is \<open>Length() - Position()\<close> as integers: the subtraction
  never underflows.
\<close>

theorem ByteStream_position_invariant:
  assumes "position_ok s"
  shows "position_ok ByteStream_empty
    \<and> (case ByteStream_init b len of Inl e \<Rightarrow> b = 0 \<and> 0 < len | Inr s0 \<Rightarrow> position_ok s0)
    \<and> position_ok (ByteStream_copy s)
    \<and> position_ok (fst (ByteStream_move s)) \<and> position_ok (snd (ByteStream_move s))
    \<and> position_ok (fst (Read mem s buf count))
    \<and> snd (snd (Read mem s buf count)) = min count (Remaining s)
    \<and> fst (snd (Read mem s buf count)) =
          (if buf then Some (bytes_at mem (mBuffer s + unat (Position s)) (unat (min count (Remaining s))))
           else None)
    \<and> map_option length (fst (snd (Read mem s buf count))) =
          (if buf then Some (unat (min count (Remaining s))) else None)
    \<and> unat (Position (fst (Read mem s buf count))) = unat (Position s) + unat (min count (Remaining s))
    \<and> position_ok (fst (Read_value mem s valueSize))
    \<and> position_ok (fst (ReadLE host mem s valueSize))
    \<and> position_ok (fst (ReadBE host mem s valueSize))
    \<and> position_ok (fst (ReadSwapped mem s valueSize))
    \<and> position_ok (fst (Skip s count))
    \<and> position_ok (fst (Rewind s count))
    \<and> position_ok (fst (SetPosition s pos))
    \<and> int (unat (Remaining s)) = int (unat (Length s)) - int (unat (Position s))"
proof -
  have le: "mReadPosition s \<le> mBufferLength s"
    using assms by (simp add: position_ok_def)
  have r: "Read mem s buf count =
           (s\<lparr>mReadPosition := mReadPosition s + min count (Remaining s)\<rparr>,
            (if buf then Some (bytes_at mem (mBuffer s + unat (Position s)) (unat (min count (Remaining s))))
             else None),
            min count (Remaining s))"
    by (rule Read_result [OF assms])
  have c1: "snd (snd (Read mem s buf count)) = min count (Remaining s)"
    by (simp add: r)
  have c2: "fst (snd (Read mem s buf count)) =
          (if buf then Some (bytes_at mem (mBuffer s + unat (Position s)) (unat (min count (Remaining s))))
           else None)"
    by (simp add: r)
  have c3: "map_option length (fst (snd (Read mem s buf count))) =
          (if buf then Some (unat (min count (Remaining s))) else None)"
    by (simp add: c2 length_bytes_at)
  have c4: "int (unat (Remaining s)) = int (unat (Length s)) - int (unat (Position s))"
    using remaining_exact [OF le] by (simp add: Remaining_def Length_def Position_def)
  show ?thesis
    using position_ok_empty position_ok_init [of b len] position_ok_copy [OF assms]
      position_ok_move [OF assms] position_ok_Read [OF assms, of mem buf count] c1 c2 c3 c4
      position_ok_Read_value [OF assms, of mem valueSize]
      position_ok_Read_converted [OF assms]
      position_ok_Skip [OF assms, of count] position_ok_Rewind [OF assms, of count]
      position_ok_SetPosition [of s pos]
    unfolding ReadLE_def ReadBE_def ReadSwapped_def
    by blast
qed

theorem ByteStream_position_invariant_witness:
  "position_ok \<lparr>mBuffer = 4096, mBufferLength = 4, mReadPosition = 1\<rparr>
   \<and> position_ok (fst (Read (\<lambda>a. word_of_nat a) \<lparr>mBuffer = 4096, mBufferLength = 4, mReadPosition = 1\<rparr> True 8))
   \<and> snd (snd (Read (\<lambda>a. word_of_nat a) \<lparr>mBuffer = 4096, mBufferLength = 4, mReadPosition = 1\<rparr> True 8)) = 3
   \<and> map_option length (fst (snd (Read (\<lambda>a. word_of_nat a) \<lparr>mBuffer = 4096, mBufferLength = 4, mReadPosition = 1\<rparr> True 8))) = Some 3
   \<and> Position (fst (Read (\<lambda>a. word_of_nat a) \<lparr>mBuffer = 4096, mBufferLength = 4, mReadPosition = 1\<rparr> True 8)) = 4"
proof -
  have h: "position_ok \<lparr>mBuffer = 4096, mBufferLength = 4, mReadPosition = 1\<rparr>"
    by (simp add: position_ok_def)
  show ?thesis
    using h ByteStream_position_invariant [OF h, of 0 0 "\<lambda>a. word_of_nat a" True 8 8 True 0]
    by (simp add: Remaining_def Position_def Read_def Let_def)
qed

section \<open>Proofs: frame addressing\<close>

lemma unat_ucast_32_64: "unat (ucast (b :: 32 word) :: 64 word) = unat b"
proof -
  have "unat b < 2 ^ 32"
    using unsigned_less [of b] by simp
  also have "(2::nat) ^ 32 \<le> 2 ^ 64"
    by simp
  finally have "take_bit 64 (unat b) = unat b"
    by (simp add: take_bit_nat_eq_self)
  then show ?thesis
    by (simp add: unsigned_ucast_eq)
qed

lemma uint_pow2: 
  assumes "k \<le> 31"
  shows "uint ((2 :: 64 word) ^ k) = 2 ^ k"
proof -
  have "uint ((2 :: 64 word) ^ k) = uint (word_of_int (2 ^ k) :: 64 word)"
    by simp
  also have "\<dots> = take_bit 64 ((2::int) ^ k)"
    by (simp only: uint_word_of_int_eq len_num1 len_bit0 mult_numeral_left_semiring_numeral, simp)
  also have "\<dots> = 2 ^ k"
    using assms by simp
  finally show ?thesis .
qed

lemma and_pow2_minus_1:
  fixes n :: "64 word"
  shows "n AND (2 ^ k - 1) = take_bit k n"
  by (simp add: take_bit_eq_mask mask_eq_exp_minus_1)

lemma uint_take_bit_sint:
  fixes n :: "64 word"
  assumes "k \<le> 64"
  shows "uint (take_bit k n) = sint n mod 2 ^ k"
proof -
  have "uint (take_bit k n) = take_bit k (uint n)"
    by (rule unsigned_take_bit_eq)
  also have "\<dots> = take_bit k (take_bit LENGTH(64) (sint n))"
    by (simp only: uint_sint)
  also have "\<dots> = take_bit k (sint n)"
    using assms by (simp add: min_def)
  also have "\<dots> = sint n mod 2 ^ k"
    by (rule take_bit_eq_mod)
  finally show ?thesis .
qed

lemma unat_take_bit_sint:
  fixes n :: "64 word"
  assumes "k \<le> 64"
  shows "unat (take_bit k n) = nat (sint n mod 2 ^ k)"
  using uint_take_bit_sint [OF assms, of n] by (simp add: unat_eq_nat_uint)

lemma unat_take_bit_less:
  fixes n :: "64 word"
  shows "unat (take_bit k n) < 2 ^ k"
  by (simp add: unsigned_take_bit_eq)

lemma frame_offset_product:
  fixes n :: "64 word" and b :: "32 word"
  assumes "k \<le> 31"
  shows "unat (take_bit k n * ucast b) = unat (take_bit k n) * unat b"
proof -
  have "unat (take_bit k n) < 2 ^ k"
    by (rule unat_take_bit_less)
  also have "(2::nat) ^ k \<le> 2 ^ 31"
    using assms by (rule power_increasing) simp
  finally have a: "unat (take_bit k n) < 2 ^ 31" .
  have b: "unat b < 2 ^ 32"
    using unsigned_less [of b] by simp
  have ub: "unat (ucast b :: 64 word) = unat b"
    by (rule unat_ucast_32_64)
  have "unat (take_bit k n) * unat b < 2 ^ 31 * 2 ^ 32"
    using a b by (rule mult_strict_mono) simp_all
  then have "unat (take_bit k n) * unat (ucast b :: 64 word) < 2 ^ LENGTH(64)"
    by (simp add: ub)
  then have "unat (take_bit k n * (ucast b :: 64 word)) = unat (take_bit k n) * unat (ucast b :: 64 word)"
    by (rule unat_mult_lem [THEN iffD1])
  then show ?thesis
    by (simp add: ub)
qed


text \<open>
  C4. On an allocated buffer (the capacity is a power of two from 2 to \<open>0x80000000\<close>,
  the range the header documents, and \<open>mCapacityFramesMask\<close> is \<open>mCapacityFrames - 1\<close>, as
  the header notes), the byte offset of any frame number \<open>n\<close>, negative ones included,
  is \<open>(n & mCapacityFramesMask) * mBytesPerFrame\<close>; the masked value is
  \<open>n mod mCapacityFrames\<close> for the two's complement value of \<open>n\<close>, and the product does
  not wrap.
\<close>

theorem FrameByteOffset_addressing:
  assumes "1 \<le> k" and "k \<le> 31"
    and "mCapacityFrames rb = 2 ^ k"
    and "mCapacityFramesMask rb = mCapacityFrames rb - 1"
  shows "FrameByteOffset rb n = (n AND mCapacityFramesMask rb) * ucast (mBytesPerFrame (mFormat rb))
    \<and> uint (n AND mCapacityFramesMask rb) = sint n mod uint (CapacityFrames rb)
    \<and> unat (FrameByteOffset rb n) =
          nat (sint n mod uint (CapacityFrames rb)) * unat (mBytesPerFrame (mFormat rb))"
proof -
  have k64: "k \<le> 64"
    using assms(2) by simp
  have mask: "n AND mCapacityFramesMask rb = take_bit k n"
    using assms(3,4) by (simp add: and_pow2_minus_1)
  have cap: "uint (CapacityFrames rb) = 2 ^ k"
    using assms(3) uint_pow2 [OF assms(2)] by (simp add: CapacityFrames_def)
  have m: "uint (n AND mCapacityFramesMask rb) = sint n mod uint (CapacityFrames rb)"
    using uint_take_bit_sint [OF k64, of n] by (simp add: mask cap)
  have "unat (FrameByteOffset rb n) = unat (take_bit k n) * unat (mBytesPerFrame (mFormat rb))"
    using frame_offset_product [OF assms(2)] by (simp add: FrameByteOffset_def mask)
  also have "unat (take_bit k n) = nat (sint n mod uint (CapacityFrames rb))"
    using unat_take_bit_sint [OF k64, of n] by (simp add: cap)
  finally have u: "unat (FrameByteOffset rb n) =
          nat (sint n mod uint (CapacityFrames rb)) * unat (mBytesPerFrame (mFormat rb))" .
  show ?thesis
    using m u by (simp add: FrameByteOffset_def)
qed

theorem FrameByteOffset_addressing_witness:
  "unat (FrameByteOffset
           \<lparr>mFormat = \<lparr>mFormatID = 0, mFormatFlags = 32, mBytesPerFrame = 4, mChannelsPerFrame = 2\<rparr>,
            mBuffers_rb = 4096, mCapacityFrames = 64, mCapacityFramesMask = 63,
            mTimeBoundsQueue = [], mTimeBoundsQueueCounter = 0\<rparr> (- 1)) = 252
   \<and> sint (- 1 :: 64 word) mod 64 = 63"
  using FrameByteOffset_addressing [of 6
      "\<lparr>mFormat = \<lparr>mFormatID = 0, mFormatFlags = 32, mBytesPerFrame = 4, mChannelsPerFrame = 2\<rparr>,
        mBuffers_rb = 4096, mCapacityFrames = 64, mCapacityFramesMask = 63,
        mTimeBoundsQueue = [], mTimeBoundsQueueCounter = 0\<rparr>" "- 1"]
  by (simp add: CapacityFrames_def)

section \<open>Proofs: audio buffer list allocation\<close>

lemma ib_step:
  "i < bufferCount \<Longrightarrow> init_buffers format p listSize bufferDataSize bufferCount i bufs =
        init_buffers format p listSize bufferDataSize bufferCount (i + 1)
          (bufs[unat i := \<lparr>mNumberChannels = InterleavedChannelCount format,
                            mDataByteSize = bufferDataSize,
                            mData = p + unat listSize + unat (bufferDataSize * i)\<rparr>])"
  by (subst init_buffers.simps) simp

lemma ib_stop:
  "\<not> i < bufferCount \<Longrightarrow> init_buffers format p listSize bufferDataSize bufferCount i bufs = bufs"
  by (subst init_buffers.simps) simp

lemma fmt_counts:
  "ChannelStreamCount \<lparr>mFormatID = 0, mFormatFlags = kAudioFormatFlagIsNonInterleaved, mBytesPerFrame = 4, mChannelsPerFrame = 2\<rparr> = 2"
  "InterleavedChannelCount \<lparr>mFormatID = 0, mFormatFlags = kAudioFormatFlagIsNonInterleaved, mBytesPerFrame = 4, mChannelsPerFrame = 2\<rparr> = 1"
  by (simp_all add: ChannelStreamCount_def InterleavedChannelCount_def IsInterleaved_def kAudioFormatFlagIsNonInterleaved_def)

lemma ib_eval:
  "init_buffers \<lparr>mFormatID = 0, mFormatFlags = kAudioFormatFlagIsNonInterleaved, mBytesPerFrame = 4, mChannelsPerFrame = 2\<rparr>
      4096 40 0x80000000 2 0 [\<lparr>mNumberChannels = 0, mDataByteSize = 0, mData = 0\<rparr>, \<lparr>mNumberChannels = 0, mDataByteSize = 0, mData = 0\<rparr>]
   = [\<lparr>mNumberChannels = 1, mDataByteSize = 0x80000000, mData = 4136\<rparr>,
                          \<lparr>mNumberChannels = 1, mDataByteSize = 0x80000000, mData = 2147487784\<rparr>]"
  by (simp add: ib_step ib_stop fmt_counts)

lemma unat_succ_less:
  fixes i n :: "32 word"
  assumes "i < n"
  shows "unat (i + 1) = Suc (unat i)"
proof -
  have less: "unat i < unat n"
    using assms by (simp add: word_less_nat_alt)
  have "unat n < 2 ^ LENGTH(32)"
    by (rule unsigned_less)
  with less have "unat i + unat (1 :: 32 word) < 2 ^ LENGTH(32)"
    by simp
  then have "unat (i + 1) = unat i + unat (1 :: 32 word)"
    by (rule unat_add_lem [THEN iffD1])
  then show ?thesis
    by simp
qed

lemma init_buffers_nth:
  assumes "length bufs = unat bufferCount"
  shows "length (init_buffers format p listSize bufferDataSize bufferCount i bufs) = unat bufferCount
    \<and> (\<forall>j<unat bufferCount.
          init_buffers format p listSize bufferDataSize bufferCount i bufs ! j =
            (if unat i \<le> j
             then \<lparr>mNumberChannels = InterleavedChannelCount format, mDataByteSize = bufferDataSize,
                   mData = p + unat listSize + unat (bufferDataSize * word_of_nat j)\<rparr>
             else bufs ! j))"
  using assms
proof (induction format p listSize bufferDataSize bufferCount i bufs rule: init_buffers.induct)
  case (1 format p listSize bufferDataSize bufferCount i bufs)
  show ?case
  proof (cases "i < bufferCount")
    case False
    then have "unat bufferCount \<le> unat i"
      by (simp add: word_less_nat_alt)
    with False "1.prems" show ?thesis
      by (simp add: init_buffers.simps [of format p listSize bufferDataSize bufferCount i bufs])
  next
    case True
    let ?x = "\<lparr>mNumberChannels = InterleavedChannelCount format, mDataByteSize = bufferDataSize,
                mData = p + unat listSize + unat (bufferDataSize * i)\<rparr>"
    let ?bufs = "bufs[unat i := ?x]"
    have len: "length ?bufs = unat bufferCount"
      using "1.prems" by simp
    have suc: "unat (i + 1) = Suc (unat i)"
      using True by (rule unat_succ_less)
    have less: "unat i < unat bufferCount"
      using True by (simp add: word_less_nat_alt)
    have step: "init_buffers format p listSize bufferDataSize bufferCount i bufs
        = init_buffers format p listSize bufferDataSize bufferCount (i + 1) ?bufs"
      using True by (simp add: init_buffers.simps [of format p listSize bufferDataSize bufferCount i bufs])
    note IH = "1.IH" [OF True len]
    have i_eq: "word_of_nat (unat i) = i"
      by simp
    show ?thesis
    proof (intro conjI allI impI)
      show "length (init_buffers format p listSize bufferDataSize bufferCount i bufs) = unat bufferCount"
        using IH step by simp
    next
      fix j assume j: "j < unat bufferCount"
      from IH j have r: "init_buffers format p listSize bufferDataSize bufferCount (i + 1) ?bufs ! j =
            (if unat (i + 1) \<le> j
             then \<lparr>mNumberChannels = InterleavedChannelCount format, mDataByteSize = bufferDataSize,
                   mData = p + unat listSize + unat (bufferDataSize * word_of_nat j)\<rparr>
             else ?bufs ! j)"
        by blast
      consider "Suc (unat i) \<le> j" | "j = unat i" | "j < unat i"
        by linarith
      then show "init_buffers format p listSize bufferDataSize bufferCount i bufs ! j =
            (if unat i \<le> j
             then \<lparr>mNumberChannels = InterleavedChannelCount format, mDataByteSize = bufferDataSize,
                   mData = p + unat listSize + unat (bufferDataSize * word_of_nat j)\<rparr>
             else bufs ! j)"
      proof cases
        case 1
        then show ?thesis
          using r by (simp add: step suc)
      next
        case 2
        then show ?thesis
          using r less "1.prems" by (simp add: step suc i_eq)
      next
        case 3
        then show ?thesis
          using r by (simp add: step suc)
      qed
    qed
  qed
qed


lemma header_size:
  fixes bufferCount :: "32 word"
  shows "unat (offsetof_mBuffers + sizeof_AudioBuffer * ucast bufferCount) = 8 + 16 * unat bufferCount"
proof -
  have n: "unat bufferCount < 2 ^ 32"
    using unsigned_less [of bufferCount] by simp
  have u: "unat (ucast bufferCount :: 64 word) = unat bufferCount"
    by (rule unat_ucast_32_64)
  have "unat (16 :: 64 word) * unat (ucast bufferCount :: 64 word) < 2 ^ LENGTH(64)"
    using n by (simp add: u)
  then have m: "unat ((16 :: 64 word) * ucast bufferCount) = 16 * unat bufferCount"
    using unat_mult_lem [of "16 :: 64 word" "ucast bufferCount :: 64 word"] by (simp add: u)
  have "unat (8 :: 64 word) + unat ((16 :: 64 word) * ucast bufferCount) < 2 ^ LENGTH(64)"
    using n by (simp add: m)
  then have "unat ((8 :: 64 word) + 16 * ucast bufferCount) = 8 + 16 * unat bufferCount"
    using unat_add_lem [of "8 :: 64 word" "(16 :: 64 word) * ucast bufferCount"] by (simp add: m)
  then show ?thesis
    by (simp add: offsetof_mBuffers_def sizeof_AudioBuffer_def)
qed

lemma block_size:
  fixes bufferCount total :: "32 word"
  shows "unat (offsetof_mBuffers + sizeof_AudioBuffer * ucast bufferCount + ucast total)
         = 8 + 16 * unat bufferCount + unat total"
proof -
  have n: "unat bufferCount < 2 ^ 32"
    using unsigned_less [of bufferCount] by simp
  have t: "unat total < 2 ^ 32"
    using unsigned_less [of total] by simp
  have u: "unat (ucast total :: 64 word) = unat total"
    by (rule unat_ucast_32_64)
  have "unat (offsetof_mBuffers + sizeof_AudioBuffer * ucast bufferCount) + unat (ucast total :: 64 word)
        < 2 ^ LENGTH(64)"
    using n t by (simp add: header_size u)
  then have "unat (offsetof_mBuffers + sizeof_AudioBuffer * ucast bufferCount + ucast total)
        = unat (offsetof_mBuffers + sizeof_AudioBuffer * ucast bufferCount) + unat (ucast total :: 64 word)"
    by (rule unat_add_lem [THEN iffD1])
  then show ?thesis
    by (simp add: header_size u)
qed

lemma unat_mult_32:
  fixes a b :: "32 word"
  assumes "unat a * unat b < 2 ^ 32"
  shows "unat (a * b) = unat a * unat b"
  using assms unat_mult_lem [of a b] by simp

text \<open>
  Where the three sizes multiply to less than \<open>2^32\<close> nothing wraps, and a list that is
  returned has the shape its callers expect: one buffer per channel stream, each with
  the interleaved channel count, \<open>frameCapacity * mBytesPerFrame\<close> bytes of data, and
  every data byte a zero byte of the block. The buffer count is kept below \<open>2^31\<close>, where
  the loop's \<open>int\<close> counter does not overflow.
\<close>

lemma SFBAllocateAudioBufferList_in_range:
  assumes fits: "unat frameCapacity * unat (mBytesPerFrame format) * unat (ChannelStreamCount format) < 2 ^ 32"
    and counter: "unat (ChannelStreamCount format) < 2 ^ 31"
    and some: "SFBAllocateAudioBufferList calloc format frameCapacity = Some blk"
  shows "mNumberBuffers (bufferList blk) = ChannelStreamCount format"
    and "length (mBuffers (bufferList blk)) = unat (ChannelStreamCount format)"
    and "i < unat (ChannelStreamCount format) \<Longrightarrow>
           mNumberChannels (mBuffers (bufferList blk) ! i) = InterleavedChannelCount format"
    and "i < unat (ChannelStreamCount format) \<Longrightarrow>
           unat (mDataByteSize (mBuffers (bufferList blk) ! i)) = unat frameCapacity * unat (mBytesPerFrame format)"
    and "i < unat (ChannelStreamCount format) \<Longrightarrow> j < unat frameCapacity * unat (mBytesPerFrame format) \<Longrightarrow>
           data_byte blk i j = Some 0"
proof -
  define bds where "bds = frameCapacity * mBytesPerFrame format"
  define bc where "bc = ChannelStreamCount format"
  define ls where "ls = offsetof_mBuffers + sizeof_AudioBuffer * (ucast bc :: 64 word)"
  define p where "p = calloc (ls + ucast (bds * bc))"
  define bufs where "bufs = init_buffers format p ls bds bc 0
      (replicate (unat bc) \<lparr>mNumberChannels = 0, mDataByteSize = 0, mData = 0\<rparr>)"
  have blk: "blk = \<lparr>abl = p, allocationSize = ls + ucast (bds * bc), bufferListSize = ls,
                    bufferList = \<lparr>mNumberBuffers = bc, mBuffers = bufs\<rparr>\<rparr>"
    using some
    by (simp add: SFBAllocateAudioBufferList_def Let_def bds_def bc_def ls_def p_def bufs_def
        split: if_splits)
  have nth: "length bufs = unat bc
    \<and> (\<forall>j<unat bc. bufs ! j =
           \<lparr>mNumberChannels = InterleavedChannelCount format, mDataByteSize = bds,
             mData = p + unat ls + unat (bds * word_of_nat j)\<rparr>)"
    using init_buffers_nth [of "replicate (unat bc) \<lparr>mNumberChannels = 0, mDataByteSize = 0, mData = 0\<rparr>"
        bc format p ls bds 0]
    by (simp add: bufs_def)
  show "mNumberBuffers (bufferList blk) = ChannelStreamCount format"
    by (simp add: blk bc_def)
  show "length (mBuffers (bufferList blk)) = unat (ChannelStreamCount format)"
    using nth by (simp add: blk bc_def)
  {
    assume i: "i < unat (ChannelStreamCount format)"
    then have i': "i < unat bc"
      by (simp add: bc_def)
    have one: "1 \<le> unat bc"
      using i' by simp
    have "unat frameCapacity * unat (mBytesPerFrame format) * 1
            \<le> unat frameCapacity * unat (mBytesPerFrame format) * unat bc"
      using one by (rule mult_le_mono2)
    then have "unat frameCapacity * unat (mBytesPerFrame format)
            \<le> unat frameCapacity * unat (mBytesPerFrame format) * unat bc"
      by (simp only: mult_1_right)
    moreover have "unat frameCapacity * unat (mBytesPerFrame format) * unat bc < 2 ^ 32"
      using fits by (simp only: bc_def)
    ultimately have "unat frameCapacity * unat (mBytesPerFrame format) < 2 ^ 32"
      by (rule le_less_trans)
    then have size: "unat bds = unat frameCapacity * unat (mBytesPerFrame format)"
      unfolding bds_def by (rule unat_mult_32)
    have total: "unat bds * unat bc < 2 ^ 32"
      using fits by (simp add: size bc_def)
    have ith: "bufs ! i = \<lparr>mNumberChannels = InterleavedChannelCount format, mDataByteSize = bds,
             mData = p + unat ls + unat (bds * word_of_nat i)\<rparr>"
      using nth i' by blast
    show "mNumberChannels (mBuffers (bufferList blk) ! i) = InterleavedChannelCount format"
      by (simp add: blk ith)
    show "unat (mDataByteSize (mBuffers (bufferList blk) ! i)) = unat frameCapacity * unat (mBytesPerFrame format)"
      by (simp add: blk ith size)
    {
      assume j: "j < unat frameCapacity * unat (mBytesPerFrame format)"
      have "i \<le> unat bc"
        using i' by simp
      then have ui: "unat (word_of_nat i :: 32 word) = i"
        by (rule le_unat_uoi)
      have "i \<le> unat bc"
        using i' by simp
      then have "unat bds * i \<le> unat bds * unat bc"
        by (rule mult_le_mono2)
      then have "unat bds * i < 2 ^ 32"
        using total by (rule le_less_trans)
      then have "unat bds * unat (word_of_nat i :: 32 word) < 2 ^ 32"
        by (simp only: ui)
      then have off: "unat (bds * word_of_nat i) = unat bds * i"
        using unat_mult_32 [of bds "word_of_nat i"] by (simp add: ui)
      have "unat bds * i + j < unat bds * i + unat bds"
        using j by (simp add: size)
      also have "\<dots> = unat bds * Suc i"
        by simp
      also have "\<dots> \<le> unat bds * unat bc"
      proof (rule mult_le_mono2)
        show "Suc i \<le> unat bc"
          using i' by simp
      qed
      finally have inside: "unat bds * i + j < unat bds * unat bc" .
      have asz: "unat (ls + ucast (bds * bc)) = unat ls + unat bds * unat bc"
        using block_size [of bc "bds * bc"] header_size [of bc] unat_mult_32 [OF total]
        by (simp add: ls_def)
      show "data_byte blk i j = Some 0"
        using inside by (simp add: data_byte_def blk ith off asz)
    }
  }
qed

text \<open>
  C9. A list that \<open>SFBAllocateAudioBufferList\<close> returns should have one buffer per
  channel stream, each of \<open>frameCapacity * mBytesPerFrame\<close> zeroed bytes. The code
  computes the sizes in 32 bits, and where they wrap it does not deliver that: for a
  non-interleaved format of 2 channels with 4 bytes per frame and a capacity of
  \<open>0x20000000\<close> frames, each buffer needs \<open>2^31\<close> bytes and the two need \<open>2^32\<close>; the
  product \<open>bufferDataSize * bufferCount\<close> wraps to \<open>0\<close>, so the block that is allocated
  has the 40 bytes of the header only. The list that is returned is not null, both
  buffers announce \<open>2^31\<close> bytes, and their data lie outside the block: not even the
  first data byte of the first buffer is a byte of the allocation.
\<close>

theorem SFBAllocateAudioBufferList_overflow:
  "SFBAllocateAudioBufferList (\<lambda>n. 4096)
     \<lparr>mFormatID = 0, mFormatFlags = kAudioFormatFlagIsNonInterleaved, mBytesPerFrame = 4, mChannelsPerFrame = 2\<rparr>
     0x20000000
   = Some \<lparr>abl = 4096, allocationSize = 40, bufferListSize = 40,
            bufferList = \<lparr>mNumberBuffers = 2,
              mBuffers = [\<lparr>mNumberChannels = 1, mDataByteSize = 0x80000000, mData = 4136\<rparr>,
                          \<lparr>mNumberChannels = 1, mDataByteSize = 0x80000000, mData = 2147487784\<rparr>]\<rparr>\<rparr>
   \<and> data_byte \<lparr>abl = 4096, allocationSize = 40, bufferListSize = 40,
            bufferList = \<lparr>mNumberBuffers = 2,
              mBuffers = [\<lparr>mNumberChannels = 1, mDataByteSize = 0x80000000, mData = 4136\<rparr>,
                          \<lparr>mNumberChannels = 1, mDataByteSize = 0x80000000, mData = 2147487784\<rparr>]\<rparr>\<rparr> 0 0
       = None"
proof -
  have two: "unat (2 :: 32 word) = Suc (Suc 0)"
    by simp
  have "replicate (unat (2 :: 32 word)) \<lparr>mNumberChannels = 0, mDataByteSize = 0, mData = 0\<rparr>
        = [\<lparr>mNumberChannels = 0, mDataByteSize = 0, mData = 0\<rparr>, \<lparr>mNumberChannels = 0, mDataByteSize = 0, mData = 0\<rparr>]"
    unfolding two by simp
  then show ?thesis
    by (simp add: SFBAllocateAudioBufferList_def Let_def fmt_counts offsetof_mBuffers_def
        sizeof_AudioBuffer_def ib_eval data_byte_def)
qed

section \<open>Proofs: the time bounds queue\<close>

lemma slot_in_queue: "unat (c AND sTimeBoundsQueueMask) < 32"
proof -
  have "c AND sTimeBoundsQueueMask \<le> sTimeBoundsQueueMask"
    by (rule word_and_le1)
  then have "unat (c AND sTimeBoundsQueueMask) \<le> unat sTimeBoundsQueueMask"
    by (simp add: word_le_nat_alt)
  then show ?thesis
    by (simp add: sTimeBoundsQueueMask_def sTimeBoundsQueueSize_def)
qed

lemma after_writes_Nil: "after_writes rb [] = Allocate_time_bounds rb"
  by (simp add: after_writes_def)

lemma after_writes_snoc:
  "after_writes rb (published @ [(startTime, endTime)]) =
     SetTimeBounds (after_writes rb published) startTime endTime"
  by (simp add: after_writes_def)

lemma queue_length_SetTimeBounds:
  "length (mTimeBoundsQueue (SetTimeBounds rb startTime endTime)) = length (mTimeBoundsQueue rb)"
  by (simp add: SetTimeBounds_def Let_def)

lemma queue_length_after_writes: "length (mTimeBoundsQueue (after_writes rb published)) = 32"
proof (induction published rule: rev_induct)
  case Nil
  show ?case
    by (simp add: after_writes_Nil Allocate_time_bounds_def sTimeBoundsQueueSize_def)
next
  case (snoc w published)
  then show ?case
    by (cases w) (simp add: after_writes_snoc queue_length_SetTimeBounds)
qed

lemma SetTimeBounds_current:
  assumes "length (mTimeBoundsQueue rb) = 32"
  shows "mTimeBoundsQueueCounter (SetTimeBounds rb startTime endTime) = mTimeBoundsQueueCounter rb + 1"
    and "mTimeBoundsQueue (SetTimeBounds rb startTime endTime)
           ! unat (mTimeBoundsQueueCounter rb + 1 AND sTimeBoundsQueueMask)
         = \<lparr>mStartTime = startTime, mEndTime = endTime, mUpdateCounter = mTimeBoundsQueueCounter rb + 1\<rparr>"
  using assms slot_in_queue [of "mTimeBoundsQueueCounter rb + 1"]
  by (simp_all add: SetTimeBounds_def Let_def)

lemma buffers_after_writes: "mBuffers_rb (after_writes rb published) = mBuffers_rb rb"
proof (induction published rule: rev_induct)
  case Nil
  show ?case
    by (simp add: after_writes_Nil Allocate_time_bounds_def)
next
  case (snoc w published)
  then show ?case
    by (cases w) (simp add: after_writes_snoc SetTimeBounds_def Let_def)
qed

lemma stamp_after_writes:
  "mUpdateCounter (mTimeBoundsQueue (after_writes rb published)
      ! unat (mTimeBoundsQueueCounter (after_writes rb published) AND sTimeBoundsQueueMask))
   = mTimeBoundsQueueCounter (after_writes rb published)"
proof (cases published rule: rev_cases)
  case Nil
  then show ?thesis
    by (simp add: after_writes_Nil Allocate_time_bounds_def sTimeBoundsQueueSize_def sTimeBoundsQueueMask_def)
next
  case (snoc earlier w)
  obtain startTime endTime where w: "w = (startTime, endTime)"
    by (cases w)
  have len: "length (mTimeBoundsQueue (after_writes rb earlier)) = 32"
    by (rule queue_length_after_writes)
  show ?thesis
    unfolding snoc w after_writes_snoc
    by (simp add: SetTimeBounds_current [OF len])
qed

lemma counter_after_writes:
  "mTimeBoundsQueueCounter (after_writes rb published) = word_of_nat (length published)"
proof (induction published rule: rev_induct)
  case Nil
  show ?case
    by (simp add: after_writes_Nil Allocate_time_bounds_def)
next
  case (snoc w published)
  have len: "length (mTimeBoundsQueue (after_writes rb published)) = 32"
    by (rule queue_length_after_writes)
  from snoc show ?case
    by (cases w) (simp add: after_writes_snoc SetTimeBounds_current(1) [OF len])
qed

lemma bounds_after_writes:
  "(StartTime (after_writes rb published), EndTime (after_writes rb published))
   = (if published = [] then (0, 0) else last published)"
proof (cases published rule: rev_cases)
  case Nil
  then show ?thesis
    by (simp add: after_writes_Nil Allocate_time_bounds_def StartTime_def EndTime_def
        sTimeBoundsQueueSize_def sTimeBoundsQueueMask_def)
next
  case (snoc earlier w)
  obtain startTime endTime where w: "w = (startTime, endTime)"
    by (cases w)
  have len: "length (mTimeBoundsQueue (after_writes rb earlier)) = 32"
    by (rule queue_length_after_writes)
  show ?thesis
    unfolding snoc w after_writes_snoc
    by (simp add: StartTime_def EndTime_def SetTimeBounds_current [OF len])
qed


lemma slot_index: "unat ((word_of_nat n :: 64 word) AND sTimeBoundsQueueMask) = n mod 32"
proof -
  have "(word_of_nat n :: 64 word) AND sTimeBoundsQueueMask = take_bit 5 (word_of_nat n)"
    by (simp add: sTimeBoundsQueueMask_def sTimeBoundsQueueSize_def take_bit_eq_mask mask_eq_exp_minus_1)
  moreover have "unat (take_bit 5 (word_of_nat n :: 64 word)) = take_bit 5 n"
    by (simp add: unsigned_take_bit_eq unsigned_of_nat min_def)
  ultimately show ?thesis
    by (simp add: take_bit_eq_mod)
qed

lemma published_entry_append:
  "i \<le> length published \<Longrightarrow> published_entry (published @ newer) i = published_entry published i"
  by (cases i) (simp_all add: published_entry_def nth_append)

lemma published_entry_stamp: "mUpdateCounter (published_entry published i) = word_of_nat i"
  by (simp add: published_entry_def)

lemma same_slot_iff:
  fixes n m :: nat
  assumes "n \<le> Suc m"
  shows "n mod 32 = Suc m mod 32 \<longleftrightarrow> (Suc m - n) mod 32 = 0"
proof -
  have "Suc m mod 32 = n mod 32 \<longleftrightarrow> 32 dvd Suc m - n"
    using assms by (rule mod_eq_dvd_iff_nat)
  then show ?thesis
    by (auto simp add: mod_eq_0_iff_dvd)
qed

lemma latest_step:
  fixes n m :: nat
  assumes "n \<le> m" and "(Suc m - n) mod 32 \<noteq> 0"
  shows "Suc m - (Suc m - n) mod 32 = m - (m - n) mod 32"
proof -
  have d: "Suc m - n = Suc (m - n)"
    using assms(1) by simp
  with assms(2) have "Suc (m - n) mod 32 = Suc ((m - n) mod 32)"
    by (simp add: mod_Suc split: if_splits)
  then show ?thesis
    by (simp add: d)
qed

lemma latest_is_self:
  fixes e l :: nat
  shows "e + l - l mod 32 = e \<longleftrightarrow> l < 32"
proof -
  have le: "l mod 32 \<le> l"
    by simp
  have "e + l - l mod 32 = e \<longleftrightarrow> l mod 32 = l"
    using le by arith
  also have "\<dots> \<longleftrightarrow> l < 32"
  proof
    assume "l mod 32 = l"
    moreover have "l mod 32 < 32"
      by simp
    ultimately show "l < 32"
      by simp
  qed simp
  finally show ?thesis .
qed

lemma queue_slot_after_writes:
  assumes "n \<le> length published"
  shows "mTimeBoundsQueue (after_writes rb published) ! (n mod 32)
         = published_entry published (length published - (length published - n) mod 32)"
  using assms
proof (induction published rule: rev_induct)
  case Nil
  then show ?case
    by (simp add: after_writes_Nil Allocate_time_bounds_def sTimeBoundsQueueSize_def published_entry_def)
next
  case (snoc w published)
  obtain startTime endTime where w: "w = (startTime, endTime)"
    by (cases w)
  let ?m = "length published"
  have len: "length (mTimeBoundsQueue (after_writes rb published)) = 32"
    by (rule queue_length_after_writes)
  have counter: "mTimeBoundsQueueCounter (after_writes rb published) + 1 = word_of_nat (Suc ?m)"
    by (simp add: counter_after_writes)
  have queue: "mTimeBoundsQueue (after_writes rb (published @ [w]))
      = (mTimeBoundsQueue (after_writes rb published))
          [Suc ?m mod 32 := \<lparr>mStartTime = startTime, mEndTime = endTime, mUpdateCounter = word_of_nat (Suc ?m)\<rparr>]"
    unfolding w after_writes_snoc
    by (simp add: SetTimeBounds_def Let_def counter slot_index del: of_nat_Suc)
  have n: "n \<le> Suc ?m"
    using snoc.prems by simp
  show ?case
  proof (cases "n mod 32 = Suc ?m mod 32")
    case True
    then have "(Suc ?m - n) mod 32 = 0"
      using same_slot_iff [OF n] by simp
    then have latest: "length (published @ [w]) - (length (published @ [w]) - n) mod 32 = Suc ?m"
      by simp
    have "mTimeBoundsQueue (after_writes rb (published @ [w])) ! (n mod 32)
          = \<lparr>mStartTime = startTime, mEndTime = endTime, mUpdateCounter = word_of_nat (Suc ?m)\<rparr>"
      using True len by (simp add: queue)
    also have "\<dots> = published_entry (published @ [w]) (Suc ?m)"
      by (simp add: published_entry_def w del: of_nat_Suc)
    finally show ?thesis
      by (simp only: latest)
  next
    case False
    then have nz: "(Suc ?m - n) mod 32 \<noteq> 0"
      using same_slot_iff [OF n] by simp
    have "n \<noteq> Suc ?m"
      using False by auto
    with n have le: "n \<le> ?m"
      by simp
    have latest: "length (published @ [w]) - (length (published @ [w]) - n) mod 32
                  = ?m - (?m - n) mod 32"
      using latest_step [OF le nz] by simp
    have "mTimeBoundsQueue (after_writes rb (published @ [w])) ! (n mod 32)
          = mTimeBoundsQueue (after_writes rb published) ! (n mod 32)"
      using False by (simp add: queue)
    also have "\<dots> = published_entry published (?m - (?m - n) mod 32)"
      by (rule snoc.IH [OF le])
    also have "\<dots> = published_entry (published @ [w]) (?m - (?m - n) mod 32)"
      by (simp add: published_entry_append)
    finally show ?thesis
      by (simp only: latest)
  qed
qed

lemma slot_read_after_writes:
  "slot_read (after_writes rb earlier) (after_writes rb (earlier @ newer))
   = published_entry (earlier @ newer) (length earlier + length newer - length newer mod 32)"
  using queue_slot_after_writes [of "length earlier" "earlier @ newer" rb]
  by (simp add: slot_read_def counter_after_writes slot_index)

lemma word_of_nat_inj_64:
  fixes a b :: nat
  assumes "a < 2 ^ 64" and "b < 2 ^ 64"
  shows "(word_of_nat a :: 64 word) = word_of_nat b \<longleftrightarrow> a = b"
proof
  assume "(word_of_nat a :: 64 word) = word_of_nat b"
  then have "unat (word_of_nat a :: 64 word) = unat (word_of_nat b :: 64 word)"
    by simp
  then show "a = b"
    using assms by (simp add: unat_of_nat)
qed simp

lemma stamp_matches_after_writes:
  assumes "length (earlier @ newer) < 2 ^ 64"
  shows "stamp_matches (after_writes rb earlier) (after_writes rb (earlier @ newer))
         \<longleftrightarrow> length newer < 32"
proof -
  let ?i = "length earlier + length newer - length newer mod 32"
  have i: "?i < 2 ^ 64" and e: "length earlier < 2 ^ 64"
    using assms by simp_all
  have "stamp_matches (after_writes rb earlier) (after_writes rb (earlier @ newer))
        \<longleftrightarrow> (word_of_nat ?i :: 64 word) = word_of_nat (length earlier)"
    by (simp only: stamp_matches_def slot_read_after_writes published_entry_stamp counter_after_writes)
  also have "\<dots> \<longleftrightarrow> ?i = length earlier"
    by (rule word_of_nat_inj_64 [OF i e])
  also have "\<dots> \<longleftrightarrow> length newer < 32"
    by (rule latest_is_self)
  finally show ?thesis .
qed

lemma slot_kept_after_writes:
  assumes "length newer < 32"
  shows "slot_read (after_writes rb earlier) (after_writes rb (earlier @ newer))
         = slot_read (after_writes rb earlier) (after_writes rb earlier)"
proof -
  have "slot_read (after_writes rb earlier) (after_writes rb (earlier @ newer))
        = published_entry (earlier @ newer) (length earlier)"
    using assms by (simp add: slot_read_after_writes)
  also have "\<dots> = published_entry earlier (length earlier)"
    by (simp add: published_entry_append)
  also have "\<dots> = slot_read (after_writes rb earlier) (after_writes rb earlier)"
    using slot_read_after_writes [of rb earlier "[]"] by simp
  finally show ?thesis .
qed

lemma slot_read_self:
  "mStartTime (slot_read rb rb) = StartTime rb" "mEndTime (slot_read rb rb) = EndTime rb"
  by (simp_all add: slot_read_def StartTime_def EndTime_def)

lemma attempts_head:
  "GetTimeBounds_attempts ((at_load, at_read) # later) =
     (if stamp_matches at_load at_read
      then Some (mStartTime (slot_read at_load at_read), mEndTime (slot_read at_load at_read))
      else GetTimeBounds_attempts later)"
  by (simp add: stamp_matches_def slot_read_def Let_def)

lemma attempts_retried:
  assumes "\<forall>v\<in>set missed. \<not> stamp_matches (fst v) (snd v)"
  shows "GetTimeBounds_attempts (missed @ later) = GetTimeBounds_attempts later"
  using assms
proof (induction missed)
  case Nil
  show ?case by simp
next
  case (Cons v missed)
  obtain at_load at_read where v: "v = (at_load, at_read)"
    by (cases v)
  from Cons.prems have "\<not> stamp_matches at_load at_read"
    by (simp add: v)
  moreover from Cons have "GetTimeBounds_attempts (missed @ later) = GetTimeBounds_attempts later"
    by simp
  ultimately show ?case
    by (simp add: v attempts_head del: GetTimeBounds_attempts.simps)
qed

lemma attempts_result:
  assumes "GetTimeBounds_attempts views = Some (startTime, endTime)"
  shows "\<exists>i<length views.
           stamp_matches (fst (views ! i)) (snd (views ! i))
         \<and> startTime = mStartTime (slot_read (fst (views ! i)) (snd (views ! i)))
         \<and> endTime = mEndTime (slot_read (fst (views ! i)) (snd (views ! i)))
         \<and> (\<forall>j<i. \<not> stamp_matches (fst (views ! j)) (snd (views ! j)))"
  using assms
proof (induction views)
  case Nil
  then show ?case by simp
next
  case (Cons v views)
  obtain at_load at_read where v: "v = (at_load, at_read)"
    by (cases v)
  show ?case
  proof (cases "stamp_matches at_load at_read")
    case True
    with Cons.prems have "startTime = mStartTime (slot_read at_load at_read)
        \<and> endTime = mEndTime (slot_read at_load at_read)"
      by (simp add: v attempts_head del: GetTimeBounds_attempts.simps)
    with True v show ?thesis
      by (intro exI [of _ 0]) simp
  next
    case False
    with Cons.prems have "GetTimeBounds_attempts views = Some (startTime, endTime)"
      by (simp add: v attempts_head del: GetTimeBounds_attempts.simps)
    from Cons.IH [OF this] obtain i where i: "i < length views"
      "stamp_matches (fst (views ! i)) (snd (views ! i))"
      "startTime = mStartTime (slot_read (fst (views ! i)) (snd (views ! i)))"
      "endTime = mEndTime (slot_read (fst (views ! i)) (snd (views ! i)))"
      "\<forall>j<i. \<not> stamp_matches (fst (views ! j)) (snd (views ! j))"
      by blast
    have "\<forall>j<Suc i. \<not> stamp_matches (fst ((v # views) ! j)) (snd ((v # views) ! j))"
      using i(5) False v by (simp add: nth_Cons split: nat.split)
    with i(1-4) show ?thesis
      by (intro exI [of _ "Suc i"]) simp
  qed
qed

lemma GetTimeBounds_quiescent:
  assumes "mBuffers_rb rb \<noteq> 0" and "0 < tries"
  shows "GetTimeBounds (after_writes rb published)
           (replicate tries (after_writes rb published, after_writes rb published))
         = Some (StartTime (after_writes rb published), EndTime (after_writes rb published))"
proof -
  obtain n where n: "tries = Suc n"
    using assms(2) by (cases tries) simp_all
  have "stamp_matches (after_writes rb published) (after_writes rb published)"
    using stamp_after_writes [of rb published] by (simp add: stamp_matches_def slot_read_def)
  then show ?thesis
    using assms(1)
    by (simp add: GetTimeBounds_def buffers_after_writes n attempts_head slot_read_self
        del: GetTimeBounds_attempts.simps)
qed

lemma GetTimeBounds_lapped:
  assumes "mBuffers_rb rb \<noteq> 0" and "32 \<le> length newer" and "length (earlier @ newer) < 2 ^ 64"
  shows "GetTimeBounds (after_writes rb (earlier @ newer))
           [(after_writes rb earlier, after_writes rb (earlier @ newer)),
            (after_writes rb (earlier @ newer), after_writes rb (earlier @ newer))]
         = Some (StartTime (after_writes rb (earlier @ newer)), EndTime (after_writes rb (earlier @ newer)))"
proof -
  have miss: "\<not> stamp_matches (after_writes rb earlier) (after_writes rb (earlier @ newer))"
    using assms(2) stamp_matches_after_writes [OF assms(3), of rb] by simp
  have hit: "stamp_matches (after_writes rb (earlier @ newer)) (after_writes rb (earlier @ newer))"
    using stamp_after_writes [of rb "earlier @ newer"] by (simp add: stamp_matches_def slot_read_def)
  show ?thesis
    using assms(1) miss hit
    by (simp add: GetTimeBounds_def buffers_after_writes attempts_head slot_read_self
        del: GetTimeBounds_attempts.simps)
qed

text \<open>
  C5. After an allocation and any sequence of published writes, the queue has its 32
  slots and the slot at index \<open>mTimeBoundsQueueCounter & sTimeBoundsQueueMask\<close> holds the
  entry stamped with the current counter value, which is the most recently published
  range. \<open>GetTimeBounds\<close>, whatever states its attempts see, retries every attempt in
  which the stamp of the slot it read differs from the counter value that selected the
  slot, returns the range of the first attempt in which they agree, and fails when no
  attempt is left; so a range it returns always comes from a slot whose stamp matched.
  On the states that writes produce, a slot read after fewer than 32 further
  publications still holds the entry of the loaded counter value and is accepted; one
  read after 32 or more has been overwritten, its stamp differs, and the attempt is
  retried. With no write in progress the first attempt succeeds and returns the
  current range.
\<close>

theorem TimeBounds_stamp_consistency:
  "length (mTimeBoundsQueue (after_writes rb published)) = unat sTimeBoundsQueueSize
   \<and> mUpdateCounter (mTimeBoundsQueue (after_writes rb published)
         ! unat (mTimeBoundsQueueCounter (after_writes rb published) AND sTimeBoundsQueueMask))
       = mTimeBoundsQueueCounter (after_writes rb published)
   \<and> (StartTime (after_writes rb published), EndTime (after_writes rb published))
       = (if published = [] then (0, 0) else last published)
   \<and> (mBuffers_rb r \<noteq> 0 \<and> (\<forall>v\<in>set missed. \<not> stamp_matches (fst v) (snd v)) \<longrightarrow>
        GetTimeBounds r (missed @ later) = GetTimeBounds r later)
   \<and> (mBuffers_rb r \<noteq> 0 \<and> stamp_matches at_load at_read \<longrightarrow>
        GetTimeBounds r ((at_load, at_read) # later)
        = Some (mStartTime (slot_read at_load at_read), mEndTime (slot_read at_load at_read)))
   \<and> GetTimeBounds r [] = None
   \<and> (mBuffers_rb r = 0 \<longrightarrow> GetTimeBounds r views = None)
   \<and> (GetTimeBounds r views = Some (startTime, endTime) \<longrightarrow>
        (\<exists>i<length views.
            stamp_matches (fst (views ! i)) (snd (views ! i))
          \<and> startTime = mStartTime (slot_read (fst (views ! i)) (snd (views ! i)))
          \<and> endTime = mEndTime (slot_read (fst (views ! i)) (snd (views ! i)))
          \<and> (\<forall>j<i. \<not> stamp_matches (fst (views ! j)) (snd (views ! j)))))
   \<and> (length (earlier @ newer) < 2 ^ 64 \<longrightarrow>
        stamp_matches (after_writes rb earlier) (after_writes rb (earlier @ newer))
        = (length newer < 32))
   \<and> (length newer < 32 \<longrightarrow>
        mStartTime (slot_read (after_writes rb earlier) (after_writes rb (earlier @ newer)))
          = StartTime (after_writes rb earlier)
      \<and> mEndTime (slot_read (after_writes rb earlier) (after_writes rb (earlier @ newer)))
          = EndTime (after_writes rb earlier))
   \<and> (mBuffers_rb rb \<noteq> 0 \<and> 32 \<le> length newer \<and> length (earlier @ newer) < 2 ^ 64 \<longrightarrow>
        GetTimeBounds (after_writes rb (earlier @ newer))
          [(after_writes rb earlier, after_writes rb (earlier @ newer)),
           (after_writes rb (earlier @ newer), after_writes rb (earlier @ newer))]
        = Some (StartTime (after_writes rb (earlier @ newer)), EndTime (after_writes rb (earlier @ newer))))
   \<and> (mBuffers_rb rb \<noteq> 0 \<and> 0 < tries \<longrightarrow>
        GetTimeBounds (after_writes rb published)
          (replicate tries (after_writes rb published, after_writes rb published))
        = Some (StartTime (after_writes rb published), EndTime (after_writes rb published)))"
proof (intro conjI impI)
  show "length (mTimeBoundsQueue (after_writes rb published)) = unat sTimeBoundsQueueSize"
    by (simp add: queue_length_after_writes sTimeBoundsQueueSize_def)
  show "mUpdateCounter (mTimeBoundsQueue (after_writes rb published)
         ! unat (mTimeBoundsQueueCounter (after_writes rb published) AND sTimeBoundsQueueMask))
       = mTimeBoundsQueueCounter (after_writes rb published)"
    by (rule stamp_after_writes)
  show "(StartTime (after_writes rb published), EndTime (after_writes rb published))
       = (if published = [] then (0, 0) else last published)"
    by (rule bounds_after_writes)
  show "GetTimeBounds r [] = None"
    by (simp add: GetTimeBounds_def)
next
  assume "mBuffers_rb r \<noteq> 0 \<and> (\<forall>v\<in>set missed. \<not> stamp_matches (fst v) (snd v))"
  then show "GetTimeBounds r (missed @ later) = GetTimeBounds r later"
    by (simp add: GetTimeBounds_def attempts_retried)
next
  assume "mBuffers_rb r \<noteq> 0 \<and> stamp_matches at_load at_read"
  then show "GetTimeBounds r ((at_load, at_read) # later)
        = Some (mStartTime (slot_read at_load at_read), mEndTime (slot_read at_load at_read))"
    by (simp add: GetTimeBounds_def attempts_head del: GetTimeBounds_attempts.simps)
next
  assume "mBuffers_rb r = 0"
  then show "GetTimeBounds r views = None"
    by (simp add: GetTimeBounds_def)
next
  assume "GetTimeBounds r views = Some (startTime, endTime)"
  then have "GetTimeBounds_attempts views = Some (startTime, endTime)"
    by (simp add: GetTimeBounds_def split: if_splits)
  then show "\<exists>i<length views.
            stamp_matches (fst (views ! i)) (snd (views ! i))
          \<and> startTime = mStartTime (slot_read (fst (views ! i)) (snd (views ! i)))
          \<and> endTime = mEndTime (slot_read (fst (views ! i)) (snd (views ! i)))
          \<and> (\<forall>j<i. \<not> stamp_matches (fst (views ! j)) (snd (views ! j)))"
    by (rule attempts_result)
next
  assume "length (earlier @ newer) < 2 ^ 64"
  then show "stamp_matches (after_writes rb earlier) (after_writes rb (earlier @ newer))
        = (length newer < 32)"
    by (rule stamp_matches_after_writes)
next
  assume kept: "length newer < 32"
  show "mStartTime (slot_read (after_writes rb earlier) (after_writes rb (earlier @ newer)))
          = StartTime (after_writes rb earlier)"
    by (simp add: slot_kept_after_writes [OF kept] slot_read_self)
  show "mEndTime (slot_read (after_writes rb earlier) (after_writes rb (earlier @ newer)))
          = EndTime (after_writes rb earlier)"
    by (simp add: slot_kept_after_writes [OF kept] slot_read_self)
next
  assume "mBuffers_rb rb \<noteq> 0 \<and> 32 \<le> length newer \<and> length (earlier @ newer) < 2 ^ 64"
  then show "GetTimeBounds (after_writes rb (earlier @ newer))
          [(after_writes rb earlier, after_writes rb (earlier @ newer)),
           (after_writes rb (earlier @ newer), after_writes rb (earlier @ newer))]
        = Some (StartTime (after_writes rb (earlier @ newer)), EndTime (after_writes rb (earlier @ newer)))"
    using GetTimeBounds_lapped [of rb newer earlier] by blast
next
  assume "mBuffers_rb rb \<noteq> 0 \<and> 0 < tries"
  then show "GetTimeBounds (after_writes rb published)
          (replicate tries (after_writes rb published, after_writes rb published))
        = Some (StartTime (after_writes rb published), EndTime (after_writes rb published))"
    using GetTimeBounds_quiescent [of rb tries published] by blast
qed

theorem TimeBounds_stamp_consistency_witness:
  "GetTimeBounds
     (after_writes
        \<lparr>mFormat = \<lparr>mFormatID = 0, mFormatFlags = 32, mBytesPerFrame = 4, mChannelsPerFrame = 2\<rparr>,
         mBuffers_rb = 4096, mCapacityFrames = 64, mCapacityFramesMask = 63,
         mTimeBoundsQueue = [], mTimeBoundsQueueCounter = 0\<rparr>
        ([(0, 100)] @ replicate 32 (0, 200)))
     [(after_writes
         \<lparr>mFormat = \<lparr>mFormatID = 0, mFormatFlags = 32, mBytesPerFrame = 4, mChannelsPerFrame = 2\<rparr>,
          mBuffers_rb = 4096, mCapacityFrames = 64, mCapacityFramesMask = 63,
          mTimeBoundsQueue = [], mTimeBoundsQueueCounter = 0\<rparr>
         [(0, 100)],
       after_writes
         \<lparr>mFormat = \<lparr>mFormatID = 0, mFormatFlags = 32, mBytesPerFrame = 4, mChannelsPerFrame = 2\<rparr>,
          mBuffers_rb = 4096, mCapacityFrames = 64, mCapacityFramesMask = 63,
          mTimeBoundsQueue = [], mTimeBoundsQueueCounter = 0\<rparr>
         ([(0, 100)] @ replicate 32 (0, 200))),
      (after_writes
         \<lparr>mFormat = \<lparr>mFormatID = 0, mFormatFlags = 32, mBytesPerFrame = 4, mChannelsPerFrame = 2\<rparr>,
          mBuffers_rb = 4096, mCapacityFrames = 64, mCapacityFramesMask = 63,
          mTimeBoundsQueue = [], mTimeBoundsQueueCounter = 0\<rparr>
         ([(0, 100)] @ replicate 32 (0, 200)),
       after_writes
         \<lparr>mFormat = \<lparr>mFormatID = 0, mFormatFlags = 32, mBytesPerFrame = 4, mChannelsPerFrame = 2\<rparr>,
          mBuffers_rb = 4096, mCapacityFrames = 64, mCapacityFramesMask = 63,
          mTimeBoundsQueue = [], mTimeBoundsQueueCounter = 0\<rparr>
         ([(0, 100)] @ replicate 32 (0, 200)))]
   = Some (0, 200)
   \<and> \<not> stamp_matches
        (after_writes
           \<lparr>mFormat = \<lparr>mFormatID = 0, mFormatFlags = 32, mBytesPerFrame = 4, mChannelsPerFrame = 2\<rparr>,
            mBuffers_rb = 4096, mCapacityFrames = 64, mCapacityFramesMask = 63,
            mTimeBoundsQueue = [], mTimeBoundsQueueCounter = 0\<rparr>
           [(0, 100)])
        (after_writes
           \<lparr>mFormat = \<lparr>mFormatID = 0, mFormatFlags = 32, mBytesPerFrame = 4, mChannelsPerFrame = 2\<rparr>,
            mBuffers_rb = 4096, mCapacityFrames = 64, mCapacityFramesMask = 63,
            mTimeBoundsQueue = [], mTimeBoundsQueueCounter = 0\<rparr>
           ([(0, 100)] @ replicate 32 (0, 200)))"
  using TimeBounds_stamp_consistency [where
      rb = "\<lparr>mFormat = \<lparr>mFormatID = 0, mFormatFlags = 32, mBytesPerFrame = 4, mChannelsPerFrame = 2\<rparr>,
        mBuffers_rb = 4096, mCapacityFrames = 64, mCapacityFramesMask = 63,
        mTimeBoundsQueue = [], mTimeBoundsQueueCounter = 0\<rparr>"
      and published = "[(0, 100)] @ replicate 32 (0, 200)"
      and earlier = "[(0, 100)]" and newer = "replicate 32 (0, 200)"]
  by simp

end
